theory Spec2Isabelle
  imports Complex_Main "HOL-Library.AList"
begin

section \<open>Data model of MatchupTable.py\<close>

text \<open>
  The typed dictionaries of the module become records, the \<open>Winner\<close> enum a datatype.
  Card names are strings. A Python \<open>dict\<close> is an association list in insertion order with
  pairwise distinct keys: \<open>map_of\<close> is the lookup, \<open>AList.update\<close> the assignment
  \<open>d[k] = v\<close> (an existing key keeps its position, a new key goes to the end), and the
  order of the list is the iteration order of \<open>d.items()\<close>. Two dicts are equal in
  Python when their \<open>map_of\<close> agree.
\<close>

datatype Winner = TEAM | OPPONENT | DRAW

record Deck =
  cards :: "string list"
  supportCards :: "string list"

record GameInfo =
  winner :: Winner
  team_crowns :: int
  opponent_crowns :: int
  team_deck :: Deck
  opponent_deck :: Deck

text \<open>The exceptions the modelled methods can raise.\<close>

datatype error = RuntimeError | ValueError | IndexError | OverflowError | OSError
  | AttributeError | TypeError

text \<open>
  The numpy arrays of the class. The program only ever builds two kinds of array:
  \<open>np.zeros((n, n))\<close>, and \<open>np.array(rows)\<close> for a list of lists of floats, which is
  two-dimensional unless \<open>rows\<close> is empty, when it is the empty one-dimensional array of
  shape \<open>(0,)\<close>. \<open>Mat c rows\<close> is the two-dimensional array of shape
  \<open>(length rows, c)\<close>; every row has length \<open>c\<close>.
  A float64 cell is a real number: the counts are whole numbers, on which float64
  addition of \<open>1.0\<close> is exact below \<open>2^53\<close>; rounding, infinities and NaN are outside the
  model.
\<close>

datatype ndarray = Empty1 | Mat nat "real list list"

record MatchupTable =
  wins_table :: "ndarray option"
  total_games_table :: "ndarray option"
  winrates_table :: "ndarray option"
  card_name_to_index :: "(string \<times> int) list"
  index_to_card_name :: "(int \<times> string) list"
  gamesProcessed :: int

text \<open>
  A method that mutates \<open>self\<close> returns \<open>Inr self'\<close> when it returns normally and
  \<open>Inl (e, self')\<close> when it raises \<open>e\<close>, \<open>self'\<close> being the instance as the exception
  leaves it.
\<close>

type_synonym 'a outcome = "(error \<times> 'a) + 'a"

definition state_after :: "'a outcome \<Rightarrow> 'a" where
  "state_after r = (case r of Inl (e, s) \<Rightarrow> s | Inr s \<Rightarrow> s)"

definition cell :: "ndarray option \<Rightarrow> nat \<Rightarrow> nat \<Rightarrow> real" where
  "cell a i j = (case a of Some (Mat c rows) \<Rightarrow> rows ! i ! j | _ \<Rightarrow> 0)"

definition square :: "nat \<Rightarrow> ndarray option \<Rightarrow> bool" where
  "square n a = (case a of
     Some (Mat c rows) \<Rightarrow> c = n \<and> length rows = n \<and> list_all (\<lambda>r. length r = n) rows
   | _ \<Rightarrow> False)"

section \<open>Resolving a deck to indices\<close>

text \<open>
  \<open>np.array(idxs, dtype=np.int32)\<close> raises OverflowError for a Python integer outside
  the int32 range (NumPy 2; the indices of a catalogue are far inside the range);
  \<open>np.unique\<close> returns the distinct values in ascending order.
  The method is \<open>_indices_for_deck\<close> in the source.
\<close>

definition fits_int32 :: "int \<Rightarrow> bool" where
  "fits_int32 i = (- 2147483648 \<le> i \<and> i < 2147483648)"

definition np_unique :: "int list \<Rightarrow> int list" where
  "np_unique idxs = sort (remdups idxs)"

definition indices_for_deck :: "MatchupTable \<Rightarrow> Deck \<Rightarrow> error + int list" where
  "indices_for_deck self deck =
     (let names = cards deck @ supportCards deck;
          idxs = List.map_filter (map_of (card_name_to_index self)) names
      in if list_all fits_int32 idxs then Inr (np_unique idxs) else Inl OverflowError)"

section \<open>Processing one game\<close>

text \<open>
  \<open>a[np.ix_(r, c)] += 1.0\<close> reads the selected sub-matrix, adds one and writes it back:
  every cell whose row is selected by \<open>r\<close> and whose column is selected by \<open>c\<close> gains
  exactly one, however often it is selected. An index \<open>i\<close> with \<open>-n \<le> i < 0\<close> selects
  \<open>i + n\<close>; any index outside \<open>[-n, n)\<close>, and any two-dimensional selection on a
  one-dimensional array, raises IndexError before anything is written.
\<close>

definition norm_index :: "nat \<Rightarrow> int \<Rightarrow> nat option" where
  "norm_index n i =
     (if 0 \<le> i \<and> i < int n then Some (nat i)
      else if - int n \<le> i \<and> i < 0 then Some (nat (i + int n))
      else None)"

fun ix_add_one :: "ndarray \<Rightarrow> int list \<Rightarrow> int list \<Rightarrow> error + ndarray" where
  "ix_add_one Empty1 r c = Inl IndexError"
| "ix_add_one (Mat cols rows) r c =
     (case (those (map (norm_index (length rows)) r), those (map (norm_index cols) c)) of
        (Some r', Some c') \<Rightarrow>
          Inr (Mat cols (map (\<lambda>(i, row).
                 if i \<in> set r'
                 then map (\<lambda>(j, x). if j \<in> set c' then x + 1 else x) (enumerate 0 row)
                 else row) (enumerate 0 rows)))
      | _ \<Rightarrow> Inl IndexError)"

definition process_game :: "MatchupTable \<Rightarrow> GameInfo \<Rightarrow> MatchupTable outcome" where
  "process_game self game_info =
     (case (wins_table self, total_games_table self) of
        (Some wins0, Some total0) \<Rightarrow>
          if winner game_info = DRAW then Inr self
          else (case indices_for_deck self (team_deck game_info) of
            Inl e \<Rightarrow> Inl (e, self)
          | Inr team_idx \<Rightarrow>
          (case indices_for_deck self (opponent_deck game_info) of
            Inl e \<Rightarrow> Inl (e, self)
          | Inr opp_idx \<Rightarrow>
          if team_idx = [] \<or> opp_idx = [] then Inr self
          else (case (if winner game_info = TEAM then ix_add_one wins0 team_idx opp_idx
                      else ix_add_one wins0 opp_idx team_idx) of
            Inl e \<Rightarrow> Inl (e, self)
          | Inr wins1 \<Rightarrow>
          (case ix_add_one total0 team_idx opp_idx of
            Inl e \<Rightarrow> Inl (e, self\<lparr>wins_table := Some wins1\<rparr>)
          | Inr total1 \<Rightarrow>
          (case ix_add_one total1 opp_idx team_idx of
            Inl e \<Rightarrow> Inl (e, self\<lparr>wins_table := Some wins1, total_games_table := Some total1\<rparr>)
          | Inr total2 \<Rightarrow>
            Inr (self\<lparr>wins_table := Some wins1, total_games_table := Some total2,
                      gamesProcessed := gamesProcessed self + 1\<rparr>))))))
      | _ \<Rightarrow> Inr self)"

text \<open>
  A sequence of \<open>process_game\<close> calls on one instance, in order; an exception ends it.
\<close>

fun process_games :: "MatchupTable \<Rightarrow> GameInfo list \<Rightarrow> MatchupTable outcome" where
  "process_games self [] = Inr self"
| "process_games self (g # gs) =
     (case process_game self g of Inl x \<Rightarrow> Inl x | Inr self' \<Rightarrow> process_games self' gs)"

section \<open>Construction\<close>

text \<open>
  \<open>__init__\<close> followed by \<open>__init_tables\<close>, from the point where the catalogue request
  has succeeded: \<open>names\<close> is the list of \<open>card['name'].lower()\<close> over \<open>all_cards\<close>, in
  order. The request itself and the credentials are not modelled.
\<close>

definition np_zeros :: "nat \<Rightarrow> ndarray" where
  "np_zeros n = Mat n (replicate n (replicate n 0))"

definition init_tables :: "string list \<Rightarrow> MatchupTable" where
  "init_tables names =
     \<lparr>wins_table = Some (np_zeros (length names)),
      total_games_table = Some (np_zeros (length names)),
      winrates_table = Some (np_zeros (length names)),
      card_name_to_index =
        foldl (\<lambda>d (index, name). AList.update name (int index) d) [] (enumerate 0 names),
      index_to_card_name =
        foldl (\<lambda>d (index, name). AList.update (int index) name d) [] (enumerate 0 names),
      gamesProcessed = 0\<rparr>"

section \<open>Deriving the winrates\<close>

text \<open>
  \<open>a[i, j]\<close> with \<open>i\<close>, \<open>j\<close> taken from \<open>range\<close>, so never negative. Indexing
  \<open>None\<close> raises TypeError, reading \<open>None.shape\<close> AttributeError, \<open>shape[1]\<close> of a
  one-dimensional array IndexError.
\<close>

definition getitem2 :: "ndarray option \<Rightarrow> nat \<Rightarrow> nat \<Rightarrow> error + real" where
  "getitem2 a i j = (case a of
     None \<Rightarrow> Inl TypeError
   | Some Empty1 \<Rightarrow> Inl IndexError
   | Some (Mat c rows) \<Rightarrow>
       if i < length rows \<and> j < c then Inr (rows ! i ! j) else Inl IndexError)"

definition setitem2 :: "ndarray option \<Rightarrow> nat \<Rightarrow> nat \<Rightarrow> real \<Rightarrow> error + ndarray" where
  "setitem2 a i j v = (case a of
     None \<Rightarrow> Inl TypeError
   | Some Empty1 \<Rightarrow> Inl IndexError
   | Some (Mat c rows) \<Rightarrow>
       if i < length rows \<and> j < c then Inr (Mat c (rows[i := (rows ! i)[j := v]]))
       else Inl IndexError)"

definition winrate_function :: "real \<Rightarrow> real \<Rightarrow> real \<Rightarrow> real" where
  "winrate_function wins total_games smoothing =
     (wins + smoothing) / (total_games + (2 * smoothing))"

fun winrates_inner :: "nat \<Rightarrow> nat list \<Rightarrow> MatchupTable \<Rightarrow> MatchupTable outcome" where
  "winrates_inner i [] self = Inr self"
| "winrates_inner i (j # js) self =
     (case getitem2 (wins_table self) i j of
        Inl e \<Rightarrow> Inl (e, self)
      | Inr wins \<Rightarrow>
     (case getitem2 (total_games_table self) i j of
        Inl e \<Rightarrow> Inl (e, self)
      | Inr total_games \<Rightarrow>
     (case setitem2 (winrates_table self) i j (winrate_function wins total_games 1) of
        Inl e \<Rightarrow> Inl (e, self)
      | Inr a \<Rightarrow> winrates_inner i js (self\<lparr>winrates_table := Some a\<rparr>))))"

fun winrates_outer :: "nat list \<Rightarrow> nat \<Rightarrow> MatchupTable \<Rightarrow> MatchupTable outcome" where
  "winrates_outer [] cols self = Inr self"
| "winrates_outer (i # is) cols self =
     (case winrates_inner i [0..<cols] self of
        Inl x \<Rightarrow> Inl x
      | Inr self' \<Rightarrow> winrates_outer is cols self')"

definition calculate_winrates :: "MatchupTable \<Rightarrow> MatchupTable outcome" where
  "calculate_winrates self = (case wins_table self of
     None \<Rightarrow> Inl (AttributeError, self)
   | Some Empty1 \<Rightarrow> Inl (IndexError, self)
   | Some (Mat cols rows) \<Rightarrow> winrates_outer [0..<length rows] cols self)"

section \<open>Persistence\<close>



text \<open>
  \<open>np.array(rows, dtype=np.float64)\<close> on a list of lists of floats: shape \<open>(0,)\<close> for
  the empty list, ValueError when the rows differ in length.
\<close>

definition np_array :: "real list list \<Rightarrow> error + ndarray" where
  "np_array rows =
     (if rows = [] then Inr Empty1
      else if list_all (\<lambda>r. length r = length (hd rows)) rows
      then Inr (Mat (length (hd rows)) rows)
      else Inl ValueError)"

text \<open>
  The locals of the reading loop: \<open>dividers_hit\<close>, \<open>wins_rows\<close>, \<open>total_games_rows\<close>,
  \<open>winrates_rows\<close>, and the instance.
\<close>

type_synonym loader =
  "nat \<times> real list list \<times> real list list \<times> real list list \<times> MatchupTable"

fun load_row ::
  "(string \<Rightarrow> int option) \<Rightarrow> (string \<Rightarrow> real option) \<Rightarrow> string list \<Rightarrow> loader
   \<Rightarrow> (error \<times> MatchupTable) + loader" where
  "load_row py_int py_float row (dividers_hit, wins_rows, total_games_rows, winrates_rows, self) =
     (if row = [] then
        Inr (dividers_hit + 1, wins_rows, total_games_rows, winrates_rows, self)
      else if dividers_hit = 0 then
        (case row of
           name # x # _ \<Rightarrow>
             (case py_int x of
                None \<Rightarrow> Inl (ValueError, self)
              | Some index \<Rightarrow>
                  Inr (dividers_hit, wins_rows, total_games_rows, winrates_rows,
                       self\<lparr>card_name_to_index := AList.update name index (card_name_to_index self),
                            index_to_card_name := AList.update index name (index_to_card_name self)\<rparr>))
         | _ \<Rightarrow> Inl (IndexError, self))
      else if dividers_hit = 1 then
        (case those (map py_float (tl row)) of
           None \<Rightarrow> Inl (ValueError, self)
         | Some xs \<Rightarrow> Inr (dividers_hit, wins_rows @ [xs], total_games_rows, winrates_rows, self))
      else if dividers_hit = 2 then
        (case those (map py_float (tl row)) of
           None \<Rightarrow> Inl (ValueError, self)
         | Some xs \<Rightarrow> Inr (dividers_hit, wins_rows, total_games_rows @ [xs], winrates_rows, self))
      else if dividers_hit = 3 then
        (case those (map py_float (tl row)) of
           None \<Rightarrow> Inl (ValueError, self)
         | Some xs \<Rightarrow> Inr (dividers_hit, wins_rows, total_games_rows, winrates_rows @ [xs], self))
      else Inr (dividers_hit, wins_rows, total_games_rows, winrates_rows, self))"

fun load_rows ::
  "(string \<Rightarrow> int option) \<Rightarrow> (string \<Rightarrow> real option) \<Rightarrow> string list list \<Rightarrow> loader
   \<Rightarrow> (error \<times> MatchupTable) + loader" where
  "load_rows py_int py_float [] st = Inr st"
| "load_rows py_int py_float (row # rows) st =
     (case load_row py_int py_float row st of
        Inl x \<Rightarrow> Inl x
      | Inr st' \<Rightarrow> load_rows py_int py_float rows st')"

definition load_from_csv ::
  "(string \<Rightarrow> int option) \<Rightarrow> (string \<Rightarrow> real option) \<Rightarrow> string list list option
   \<Rightarrow> MatchupTable \<Rightarrow> MatchupTable outcome" where
  "load_from_csv py_int py_float file self =
     (let self0 = self\<lparr>card_name_to_index := [], index_to_card_name := []\<rparr> in
      case file of
        None \<Rightarrow> Inl (OSError, self0)
      | Some rows \<Rightarrow>
     (case load_rows py_int py_float rows (0, [], [], [], self0) of
        Inl x \<Rightarrow> Inl x
      | Inr (dividers_hit, wins_rows, total_games_rows, winrates_rows, self1) \<Rightarrow>
     (case np_array wins_rows of
        Inl e \<Rightarrow> Inl (e, self1)
      | Inr a \<Rightarrow>
     (case np_array total_games_rows of
        Inl e \<Rightarrow> Inl (e, self1\<lparr>wins_table := Some a\<rparr>)
      | Inr b \<Rightarrow>
     (case np_array winrates_rows of
        Inl e \<Rightarrow> Inl (e, self1\<lparr>wins_table := Some a, total_games_table := Some b\<rparr>)
      | Inr c \<Rightarrow>
          Inr (self1\<lparr>wins_table := Some a, total_games_table := Some b,
                     winrates_table := Some c\<rparr>))))))"

subsection \<open>A decimal fragment of the runtime's conversions\<close>










section \<open>Notions used in the properties\<close>

subsection \<open>Well-formed instances\<close>

text \<open>
  An instance over a catalogue of \<open>n\<close> cards: the wins and total-games tables are
  \<open>n \<times> n\<close> and every index of the card index lies in \<open>[0, n)\<close>. \<open>__init_tables\<close>
  builds such an instance.
\<close>

definition well_formed :: "nat \<Rightarrow> MatchupTable \<Rightarrow> bool" where
  "well_formed n self =
     (square n (wins_table self) \<and> square n (total_games_table self) \<and>
      list_all (\<lambda>(name, i). 0 \<le> i \<and> i < int n) (card_name_to_index self))"

text \<open>
  The invariant of the accumulator: the total-games table is symmetric and every wins
  cell lies between 0 and the total-games cell.
\<close>

definition counts_inv :: "nat \<Rightarrow> MatchupTable \<Rightarrow> bool" where
  "counts_inv n self =
     list_all (\<lambda>i. list_all (\<lambda>j.
        cell (total_games_table self) i j = cell (total_games_table self) j i \<and>
        0 \<le> cell (wins_table self) i j \<and>
        cell (wins_table self) i j \<le> cell (total_games_table self) i j) [0..<n]) [0..<n]"

subsection \<open>Examples\<close>


definition knight_game :: GameInfo where
  "knight_game =
     \<lparr>winner = TEAM, team_crowns = 1, opponent_crowns = 0,
      team_deck = \<lparr>cards = [''knight''], supportCards = [''archer'']\<rparr>,
      opponent_deck = \<lparr>cards = [''wizard''], supportCards = []\<rparr>\<rparr>"

definition draw_game :: GameInfo where
  "draw_game =
     \<lparr>winner = DRAW, team_crowns = 1, opponent_crowns = 1,
      team_deck = \<lparr>cards = [''knight''], supportCards = [''archer'']\<rparr>,
      opponent_deck = \<lparr>cards = [''wizard''], supportCards = []\<rparr>\<rparr>"

definition three_cards :: MatchupTable where
  "three_cards = init_tables [''knight'', ''archer'', ''wizard'']"

definition knight_played :: MatchupTable where
  "knight_played =
     three_cards\<lparr>wins_table := Some (Mat 3 [[0, 0, 1], [0, 0, 1], [0, 0, 0]]),
                 total_games_table := Some (Mat 3 [[0, 0, 1], [0, 0, 1], [1, 1, 0]]),
                 gamesProcessed := 1\<rparr>"

subsection \<open>Sections of an artifact\<close>








text \<open>
  The rows of one section are ragged when they do not all have the length of the first,
  that is, when two of them differ in length (\<open>ragged_iff\<close> below).
\<close>

definition ragged :: "'a list list \<Rightarrow> bool" where
  "ragged rows = (\<not> list_all (\<lambda>r. length r = length (hd rows)) rows)"



section \<open>Auxiliary facts\<close>

lemma those_map_Some:
  "(\<And>x. x \<in> set xs \<Longrightarrow> f x = Some (g x)) \<Longrightarrow> those (map f xs) = Some (map g xs)"
  by (induction xs) auto

lemma norm_index_in_range:
  "0 \<le> i \<Longrightarrow> i < int n \<Longrightarrow> norm_index n i = Some (nat i)"
  by (simp add: norm_index_def)

lemma ix_add_one_square:
  assumes sq: "square n (Some a)"
    and r: "\<forall>i\<in>set r. 0 \<le> i \<and> i < int n"
    and c: "\<forall>j\<in>set c. 0 \<le> j \<and> j < int n"
  shows "\<exists>a'. ix_add_one a r c = Inr a' \<and> square n (Some a') \<and>
           (\<forall>i<n. \<forall>j<n. cell (Some a') i j =
              cell (Some a) i j + (if int i \<in> set r \<and> int j \<in> set c then 1 else 0))"
proof -
  from sq obtain rows where a: "a = Mat n rows" and len: "length rows = n"
    and rows: "\<forall>row\<in>set rows. length row = n"
    by (auto simp: square_def list_all_iff split: ndarray.splits)
  have tr: "those (map (norm_index n) r) = Some (map nat r)"
    using r by (intro those_map_Some norm_index_in_range) auto
  have tc: "those (map (norm_index n) c) = Some (map nat c)"
    using c by (intro those_map_Some norm_index_in_range) auto
  define rows' where "rows' = map (\<lambda>(i, row).
                 if i \<in> set (map nat r)
                 then map (\<lambda>(j, x). if j \<in> set (map nat c) then x + 1 else x) (enumerate 0 row)
                 else row) (enumerate 0 rows)"
  have res: "ix_add_one a r c = Inr (Mat n rows')"
    by (simp add: a len tr tc rows'_def)
  have mem_r: "(i \<in> set (map nat r)) = (int i \<in> set r)" for i
    using r by (force simp: image_iff)
  have mem_c: "(j \<in> set (map nat c)) = (int j \<in> set c)" for j
    using c by (force simp: image_iff)
  have len': "length rows' = n" by (simp add: rows'_def len)
  have row_len: "length (rows' ! i) = n" if "i < n" for i
    using that rows len by (simp add: rows'_def nth_enumerate_eq)
  have cells: "rows' ! i ! j = rows ! i ! j + (if int i \<in> set r \<and> int j \<in> set c then 1 else 0)"
    if "i < n" "j < n" for i j
  proof -
    have "length (rows ! i) = n" using that rows len by simp
    then show ?thesis
      using that len by (simp add: rows'_def nth_enumerate_eq mem_r mem_c del: set_map)
  qed
  have "square n (Some (Mat n rows'))"
    using len' row_len by (auto simp: square_def list_all_iff in_set_conv_nth)
  then show ?thesis using res cells by (auto simp: cell_def a)
qed

lemma set_map_filter_map_of:
  "set (List.map_filter f xs) = {y. \<exists>x\<in>set xs. f x = Some y}"
  by (induction xs) (auto split: option.splits)

lemma set_np_unique: "set (np_unique xs) = set xs"
  by (simp add: np_unique_def)

lemma indices_for_deck_set:
  "indices_for_deck self deck = Inr idxs \<Longrightarrow>
   set idxs = {i. \<exists>name \<in> set (cards deck) \<union> set (supportCards deck).
                 map_of (card_name_to_index self) name = Some i}"
  by (auto simp: indices_for_deck_def Let_def set_map_filter_map_of set_np_unique
           split: if_splits)

lemma indices_for_deck_range:
  assumes "well_formed n self" "indices_for_deck self deck = Inr idxs"
  shows "\<forall>i\<in>set idxs. 0 \<le> i \<and> i < int n"
proof
  fix i assume "i \<in> set idxs"
  then obtain name where "map_of (card_name_to_index self) name = Some i"
    using indices_for_deck_set[OF assms(2)] by auto
  then have "(name, i) \<in> set (card_name_to_index self)" by (rule map_of_SomeD)
  then show "0 \<le> i \<and> i < int n"
    using assms(1) by (auto simp: well_formed_def list_all_iff)
qed

section \<open>Resolving a deck (claim C7)\<close>

text \<open>
  Claim C7. For every deck, \<open>_indices_for_deck\<close> returns the indices of exactly those
  names of the deck (cards and support cards) that are keys of \<open>card_name_to_index\<close>,
  without duplicates (and in ascending order); names that are not keys are dropped
  without an error. The result depends on the mapping and the deck only. The indices
  of the deck's names are assumed to fit the int32 element type of the index array, as
  the indices of a catalogue do.
\<close>

theorem indices_for_deck_correct:
  assumes "\<forall>name \<in> set (cards deck) \<union> set (supportCards deck).
             \<forall>i. map_of (card_name_to_index self) name = Some i \<longrightarrow> fits_int32 i"
  shows "(\<exists>idxs. indices_for_deck self deck = Inr idxs \<and> distinct idxs \<and> sorted idxs \<and>
            set idxs = {i. \<exists>name \<in> set (cards deck) \<union> set (supportCards deck).
                          map_of (card_name_to_index self) name = Some i}) \<and>
         (\<forall>self'. card_name_to_index self' = card_name_to_index self \<longrightarrow>
            indices_for_deck self' deck = indices_for_deck self deck)"
proof -
  let ?idxs = "List.map_filter (map_of (card_name_to_index self)) (cards deck @ supportCards deck)"
  have "list_all fits_int32 ?idxs"
    using assms by (auto simp: list_all_iff set_map_filter_map_of)
  then have res: "indices_for_deck self deck = Inr (np_unique ?idxs)"
    by (simp add: indices_for_deck_def Let_def)
  have "distinct (np_unique ?idxs)" "sorted (np_unique ?idxs)"
    by (simp_all add: np_unique_def)
  moreover have "\<forall>self'. card_name_to_index self' = card_name_to_index self \<longrightarrow>
            indices_for_deck self' deck = indices_for_deck self deck"
    by (simp add: indices_for_deck_def)
  ultimately show ?thesis
    using res indices_for_deck_set[OF res] by blast
qed

theorem indices_for_deck_correct_witness:
  "indices_for_deck three_cards
     \<lparr>cards = [''wizard'', ''golem'', ''knight'', ''wizard''], supportCards = [''knight'']\<rparr>
   = Inr [0, 2]"
proof -
  let ?deck = "\<lparr>cards = [''wizard'', ''golem'', ''knight'', ''wizard''],
                supportCards = [''knight'']\<rparr>"
  have h: "\<forall>name \<in> set (cards ?deck) \<union> set (supportCards ?deck).
             \<forall>i. map_of (card_name_to_index three_cards) name = Some i \<longrightarrow> fits_int32 i"
    by (simp add: three_cards_def init_tables_def fits_int32_def)
  from indices_for_deck_correct[OF h] obtain idxs where
    "indices_for_deck three_cards ?deck = Inr idxs" by blast
  then show ?thesis
    by (simp add: indices_for_deck_def three_cards_def init_tables_def np_unique_def
        fits_int32_def)
qed

section \<open>The effect of one game\<close>

lemma process_game_effect:
  assumes wf: "well_formed n s" and nd: "winner g \<noteq> DRAW"
    and ti: "indices_for_deck s (team_deck g) = Inr ti"
    and oi: "indices_for_deck s (opponent_deck g) = Inr oi"
    and ne: "ti \<noteq> []" "oi \<noteq> []"
  shows "\<exists>w' t'. process_game s g =
            Inr (s\<lparr>wins_table := Some w', total_games_table := Some t',
                   gamesProcessed := gamesProcessed s + 1\<rparr>) \<and>
          square n (Some w') \<and> square n (Some t') \<and>
          (\<forall>i<n. \<forall>j<n.
             cell (Some w') i j = cell (wins_table s) i j +
               (if (if winner g = TEAM then int i \<in> set ti \<and> int j \<in> set oi
                    else int i \<in> set oi \<and> int j \<in> set ti) then 1 else 0) \<and>
             cell (Some t') i j = cell (total_games_table s) i j +
               (if int i \<in> set ti \<and> int j \<in> set oi then 1 else 0) +
               (if int i \<in> set oi \<and> int j \<in> set ti then 1 else 0))"
proof -
  from wf obtain w t where w: "wins_table s = Some w" and t: "total_games_table s = Some t"
    and sqw: "square n (Some w)" and sqt: "square n (Some t)"
    by (auto simp: well_formed_def square_def split: option.splits)
  have rt: "\<forall>i\<in>set ti. 0 \<le> i \<and> i < int n" using indices_for_deck_range[OF wf ti] .
  have ro: "\<forall>i\<in>set oi. 0 \<le> i \<and> i < int n" using indices_for_deck_range[OF wf oi] .
  define a b where "a = (if winner g = TEAM then ti else oi)"
    and "b = (if winner g = TEAM then oi else ti)"
  have ra: "\<forall>i\<in>set a. 0 \<le> i \<and> i < int n" and rb: "\<forall>i\<in>set b. 0 \<le> i \<and> i < int n"
    using rt ro by (auto simp: a_def b_def)
  from ix_add_one_square[OF sqw ra rb] obtain w' where
    w': "ix_add_one w a b = Inr w'" "square n (Some w')"
      "\<forall>i<n. \<forall>j<n. cell (Some w') i j =
              cell (Some w) i j + (if int i \<in> set a \<and> int j \<in> set b then 1 else 0)"
    by blast
  from ix_add_one_square[OF sqt rt ro] obtain t1 where
    t1: "ix_add_one t ti oi = Inr t1" "square n (Some t1)"
      "\<forall>i<n. \<forall>j<n. cell (Some t1) i j =
              cell (Some t) i j + (if int i \<in> set ti \<and> int j \<in> set oi then 1 else 0)"
    by blast
  from ix_add_one_square[OF t1(2) ro rt] obtain t2 where
    t2: "ix_add_one t1 oi ti = Inr t2" "square n (Some t2)"
      "\<forall>i<n. \<forall>j<n. cell (Some t2) i j =
              cell (Some t1) i j + (if int i \<in> set oi \<and> int j \<in> set ti then 1 else 0)"
    by blast
  have wins_step: "(if winner g = TEAM then ix_add_one w ti oi else ix_add_one w oi ti) = Inr w'"
    using w'(1) by (cases "winner g = TEAM") (simp_all add: a_def b_def)
  have "process_game s g =
          Inr (s\<lparr>wins_table := Some w', total_games_table := Some t2,
                 gamesProcessed := gamesProcessed s + 1\<rparr>)"
    unfolding process_game_def using nd ne
    by (simp add: w t ti oi wins_step t1(1) t2(1))
  moreover have "\<forall>i<n. \<forall>j<n.
             cell (Some w') i j = cell (wins_table s) i j +
               (if (if winner g = TEAM then int i \<in> set ti \<and> int j \<in> set oi
                    else int i \<in> set oi \<and> int j \<in> set ti) then 1 else 0) \<and>
             cell (Some t2) i j = cell (total_games_table s) i j +
               (if int i \<in> set ti \<and> int j \<in> set oi then 1 else 0) +
               (if int i \<in> set oi \<and> int j \<in> set ti then 1 else 0)"
    using w'(3) t1(3) t2(3) by (simp add: w t a_def b_def)
  ultimately show ?thesis using w'(2) t2(2) by blast
qed

section \<open>Games that are skipped (claim C5)\<close>

lemma process_game_unchanged_or_counted:
  "state_after (process_game s g) = s \<or>
   (winner g \<noteq> DRAW \<and>
    (\<exists>ti oi. indices_for_deck s (team_deck g) = Inr ti \<and> ti \<noteq> [] \<and>
             indices_for_deck s (opponent_deck g) = Inr oi \<and> oi \<noteq> []) \<and>
    gamesProcessed (state_after (process_game s g)) \<in> {gamesProcessed s, gamesProcessed s + 1})"
  unfolding process_game_def state_after_def
  by (simp split: option.splits sum.splits)

text \<open>
  Claim C5. A draw leaves the instance as it is, and so does a game one of whose decks
  resolves to the empty index set: the wins table, the total-games table and
  \<open>gamesProcessed\<close> are unchanged (the call returns normally as soon as both decks
  resolve). Conversely, when \<open>gamesProcessed\<close> changes, the game is not a draw, both decks
  resolve to non-empty index sets, and the counter has grown by exactly one.
\<close>

theorem process_game_skips:
  "(winner g = DRAW \<longrightarrow> process_game s g = Inr s) \<and>
   (indices_for_deck s (team_deck g) = Inr [] \<or> indices_for_deck s (opponent_deck g) = Inr []
      \<longrightarrow> state_after (process_game s g) = s) \<and>
   (\<forall>ti oi. indices_for_deck s (team_deck g) = Inr ti \<and>
            indices_for_deck s (opponent_deck g) = Inr oi \<and> (ti = [] \<or> oi = [])
      \<longrightarrow> process_game s g = Inr s) \<and>
   (gamesProcessed (state_after (process_game s g)) \<noteq> gamesProcessed s \<longrightarrow>
      winner g \<noteq> DRAW \<and>
      (\<exists>ti oi. indices_for_deck s (team_deck g) = Inr ti \<and> ti \<noteq> [] \<and>
               indices_for_deck s (opponent_deck g) = Inr oi \<and> oi \<noteq> []) \<and>
      gamesProcessed (state_after (process_game s g)) = gamesProcessed s + 1)"
proof (intro conjI impI allI)
  assume "winner g = DRAW"
  then show "process_game s g = Inr s"
    by (simp add: process_game_def split: option.splits)
next
  assume "indices_for_deck s (team_deck g) = Inr [] \<or> indices_for_deck s (opponent_deck g) = Inr []"
  then show "state_after (process_game s g) = s"
    by (auto simp: process_game_def state_after_def split: option.splits sum.splits)
next
  fix ti oi
  assume "indices_for_deck s (team_deck g) = Inr ti \<and>
          indices_for_deck s (opponent_deck g) = Inr oi \<and> (ti = [] \<or> oi = [])"
  then show "process_game s g = Inr s"
    by (auto simp: process_game_def split: option.splits)
next
  assume ch: "gamesProcessed (state_after (process_game s g)) \<noteq> gamesProcessed s"
  then have ns: "state_after (process_game s g) \<noteq> s" by auto
  with process_game_unchanged_or_counted[of s g]
  show "winner g \<noteq> DRAW" by blast
  from ns process_game_unchanged_or_counted[of s g]
  show "\<exists>ti oi. indices_for_deck s (team_deck g) = Inr ti \<and> ti \<noteq> [] \<and>
               indices_for_deck s (opponent_deck g) = Inr oi \<and> oi \<noteq> []" by blast
  from ns ch process_game_unchanged_or_counted[of s g]
  show "gamesProcessed (state_after (process_game s g)) = gamesProcessed s + 1" by blast
qed

lemmas eval_defs = three_cards_def init_tables_def indices_for_deck_def np_unique_def fits_int32_def
  process_game_def state_after_def np_zeros_def norm_index_def

theorem process_game_skips_witness:
  "winner draw_game = DRAW \<and> process_game three_cards draw_game = Inr three_cards \<and>
   indices_for_deck three_cards (opponent_deck (knight_game\<lparr>opponent_deck := \<lparr>cards = [''golem''], supportCards = []\<rparr>\<rparr>)) = Inr [] \<and>
   state_after (process_game three_cards (knight_game\<lparr>opponent_deck := \<lparr>cards = [''golem''], supportCards = []\<rparr>\<rparr>)) = three_cards \<and>
   gamesProcessed (state_after (process_game three_cards knight_game)) = 1 \<and>
   gamesProcessed three_cards = 0"
proof -
  let ?g = "knight_game\<lparr>opponent_deck := \<lparr>cards = [''golem''], supportCards = []\<rparr>\<rparr>"
  have d: "winner draw_game = DRAW" by (simp add: draw_game_def)
  have e: "indices_for_deck three_cards (opponent_deck ?g) = Inr []"
    by (simp add: eval_defs knight_game_def)
  have c: "gamesProcessed (state_after (process_game three_cards knight_game)) = 1"
    by (simp add: eval_defs knight_game_def)
  have z: "gamesProcessed three_cards = 0" by (simp add: eval_defs)
  from process_game_skips[where g = draw_game and s = three_cards] d
  have "process_game three_cards draw_game = Inr three_cards" by blast
  moreover from process_game_skips[where g = "?g" and s = three_cards] e
  have "state_after (process_game three_cards ?g) = three_cards" by blast
  ultimately show ?thesis using d e c z by blast
qed

section \<open>The update of one game (claim C2)\<close>




section \<open>The derivation of the winrates\<close>

lemma square_cases:
  assumes "square n a"
  obtains rows where "a = Some (Mat n rows)" "length rows = n" "\<forall>row\<in>set rows. length row = n"
  using assms by (auto simp: square_def list_all_iff split: option.splits ndarray.splits)

lemma getitem2_square:
  "square n a \<Longrightarrow> i < n \<Longrightarrow> j < n \<Longrightarrow> getitem2 a i j = Inr (cell a i j)"
  by (erule square_cases) (simp add: getitem2_def cell_def)

lemma setitem2_square:
  assumes "square n a" "i < n" "j < n"
  shows "\<exists>a'. setitem2 a i j v = Inr a' \<and> square n (Some a') \<and>
           (\<forall>p<n. \<forall>q<n. cell (Some a') p q = (if p = i \<and> q = j then v else cell a p q))"
proof -
  from assms(1) obtain rows where a: "a = Some (Mat n rows)" and len: "length rows = n"
    and rows: "\<forall>row\<in>set rows. length row = n"
    by (rule square_cases)
  let ?rows' = "rows[i := (rows ! i)[j := v]]"
  have res: "setitem2 a i j v = Inr (Mat n ?rows')"
    using assms(2,3) by (simp add: setitem2_def a len)
  have "\<forall>row\<in>set ?rows'. length row = n"
    using rows assms(2) len by (auto dest!: set_update_subset_insert[THEN subsetD])
  then have sq: "square n (Some (Mat n ?rows'))"
    by (simp add: square_def list_all_iff len)
  have "cell (Some (Mat n ?rows')) p q = (if p = i \<and> q = j then v else cell a p q)"
    if "p < n" "q < n" for p q
    using that rows len assms(2,3) by (simp add: cell_def a nth_list_update)
  then show ?thesis using res sq by blast
qed

lemma winrates_inner_square:
  assumes "square n (wins_table s)" "square n (total_games_table s)"
    "square n (winrates_table s)" "i < n" "\<forall>j\<in>set js. j < n"
  shows "\<exists>r. winrates_inner i js s = Inr (s\<lparr>winrates_table := Some r\<rparr>) \<and> square n (Some r) \<and>
          (\<forall>p<n. \<forall>q<n. cell (Some r) p q =
             (if p = i \<and> q \<in> set js
              then winrate_function (cell (wins_table s) p q) (cell (total_games_table s) p q) 1
              else cell (winrates_table s) p q))"
  using assms
proof (induction js arbitrary: s)
  case Nil
  then obtain rows where "winrates_table s = Some (Mat n rows)"
    by (auto elim: square_cases)
  then have "s\<lparr>winrates_table := Some (Mat n rows)\<rparr> = s" by simp
  with Nil show ?case
    by (metis \<open>winrates_table s = Some (Mat n rows)\<close> empty_iff list.set(1) winrates_inner.simps(1))
next
  case (Cons j js)
  let ?v = "winrate_function (cell (wins_table s) i j) (cell (total_games_table s) i j) 1"
  have j: "j < n" using Cons.prems by simp
  from setitem2_square[OF Cons.prems(3,4) j, of ?v] obtain a where
    a: "setitem2 (winrates_table s) i j ?v = Inr a" "square n (Some a)"
       "\<forall>p<n. \<forall>q<n. cell (Some a) p q = (if p = i \<and> q = j then ?v else cell (winrates_table s) p q)"
    by blast
  let ?s1 = "s\<lparr>winrates_table := Some a\<rparr>"
  have step: "winrates_inner i (j # js) s = winrates_inner i js ?s1"
    using Cons.prems j
    by (simp add: getitem2_square[where n = n] a(1))
  have "\<exists>r. winrates_inner i js ?s1 = Inr (?s1\<lparr>winrates_table := Some r\<rparr>) \<and> square n (Some r) \<and>
          (\<forall>p<n. \<forall>q<n. cell (Some r) p q =
             (if p = i \<and> q \<in> set js
              then winrate_function (cell (wins_table ?s1) p q) (cell (total_games_table ?s1) p q) 1
              else cell (winrates_table ?s1) p q))"
    using Cons.prems a(2) by (intro Cons.IH) simp_all
  then obtain r where r: "winrates_inner i js ?s1 = Inr (s\<lparr>winrates_table := Some r\<rparr>)"
      "square n (Some r)"
      "\<forall>p<n. \<forall>q<n. cell (Some r) p q =
             (if p = i \<and> q \<in> set js
              then winrate_function (cell (wins_table s) p q) (cell (total_games_table s) p q) 1
              else cell (Some a) p q)"
    by auto
  have "\<forall>p<n. \<forall>q<n. cell (Some r) p q =
             (if p = i \<and> q \<in> set (j # js)
              then winrate_function (cell (wins_table s) p q) (cell (total_games_table s) p q) 1
              else cell (winrates_table s) p q)"
    using r(3) a(3) by auto
  then show ?case using step r(1,2) by auto
qed

lemma winrates_outer_square:
  assumes "square n (wins_table s)" "square n (total_games_table s)"
    "square n (winrates_table s)" "\<forall>i\<in>set is. i < n"
  shows "\<exists>r. winrates_outer is n s = Inr (s\<lparr>winrates_table := Some r\<rparr>) \<and> square n (Some r) \<and>
          (\<forall>p<n. \<forall>q<n. cell (Some r) p q =
             (if p \<in> set is
              then winrate_function (cell (wins_table s) p q) (cell (total_games_table s) p q) 1
              else cell (winrates_table s) p q))"
  using assms
proof (induction "is" arbitrary: s)
  case Nil
  then obtain rows where w: "winrates_table s = Some (Mat n rows)"
    by (auto elim: square_cases)
  then have "s\<lparr>winrates_table := Some (Mat n rows)\<rparr> = s" by simp
  with Nil w show ?case
    by (metis empty_iff list.set(1) winrates_outer.simps(1))
next
  case (Cons i "is")
  have i: "i < n" using Cons.prems by simp
  have "\<forall>j\<in>set [0..<n]. j < n" by simp
  from winrates_inner_square[OF Cons.prems(1,2,3) i this] obtain a where
    a: "winrates_inner i [0..<n] s = Inr (s\<lparr>winrates_table := Some a\<rparr>)" "square n (Some a)"
       "\<forall>p<n. \<forall>q<n. cell (Some a) p q =
             (if p = i \<and> q \<in> set [0..<n]
              then winrate_function (cell (wins_table s) p q) (cell (total_games_table s) p q) 1
              else cell (winrates_table s) p q)"
    by blast
  let ?s1 = "s\<lparr>winrates_table := Some a\<rparr>"
  have step: "winrates_outer (i # is) n s = winrates_outer is n ?s1"
    by (simp add: a(1))
  have "\<exists>r. winrates_outer is n ?s1 = Inr (?s1\<lparr>winrates_table := Some r\<rparr>) \<and> square n (Some r) \<and>
          (\<forall>p<n. \<forall>q<n. cell (Some r) p q =
             (if p \<in> set is
              then winrate_function (cell (wins_table ?s1) p q) (cell (total_games_table ?s1) p q) 1
              else cell (winrates_table ?s1) p q))"
    using Cons.prems a(2) by (intro Cons.IH) simp_all
  then obtain r where r: "winrates_outer is n ?s1 = Inr (s\<lparr>winrates_table := Some r\<rparr>)"
      "square n (Some r)"
      "\<forall>p<n. \<forall>q<n. cell (Some r) p q =
             (if p \<in> set is
              then winrate_function (cell (wins_table s) p q) (cell (total_games_table s) p q) 1
              else cell (Some a) p q)"
    by auto
  have "\<forall>p<n. \<forall>q<n. cell (Some r) p q =
             (if p \<in> set (i # is)
              then winrate_function (cell (wins_table s) p q) (cell (total_games_table s) p q) 1
              else cell (winrates_table s) p q)"
    using r(3) a(3) by auto
  then show ?case using step r(1,2) by auto
qed

lemma calculate_winrates_square:
  assumes "square n (wins_table s)" "square n (total_games_table s)"
    "square n (winrates_table s)"
  shows "\<exists>r. calculate_winrates s = Inr (s\<lparr>winrates_table := Some r\<rparr>) \<and> square n (Some r) \<and>
          (\<forall>i<n. \<forall>j<n. cell (Some r) i j =
             winrate_function (cell (wins_table s) i j) (cell (total_games_table s) i j) 1)"
proof -
  from assms(1) obtain rows where w: "wins_table s = Some (Mat n rows)" "length rows = n"
    by (rule square_cases)
  have "\<forall>i\<in>set [0..<n]. i < n" by simp
  from winrates_outer_square[OF assms this] obtain r where
    r: "winrates_outer [0..<n] n s = Inr (s\<lparr>winrates_table := Some r\<rparr>)" "square n (Some r)"
       "\<forall>p<n. \<forall>q<n. cell (Some r) p q =
             (if p \<in> set [0..<n]
              then winrate_function (cell (wins_table s) p q) (cell (total_games_table s) p q) 1
              else cell (winrates_table s) p q)"
    by blast
  have "calculate_winrates s = Inr (s\<lparr>winrates_table := Some r\<rparr>)"
    by (simp add: calculate_winrates_def w r(1))
  then show ?thesis using r(2,3) by auto
qed

section \<open>The smoothed winrate (claim C3)\<close>

text \<open>
  Claim C3. On an instance whose three tables are \<open>n \<times> n\<close>, \<open>calculate_winrates\<close>
  returns normally, leaves the wins and total-games tables as they are, and sets every
  cell \<open>(i, j)\<close> of the winrates table to \<open>(wins[i][j] + s) / (total[i][j] + 2 * s)\<close> with
  \<open>s = 1\<close>, a value that depends on the wins and total-games cells \<open>(i, j)\<close> only; where
  both of them are 0 the winrate is exactly one half. (The denominator is assumed not
  to be zero: float division by zero yields an infinity or NaN, which a real cell does
  not represent.)
\<close>

theorem calculate_winrates_formula:
  assumes "square n (wins_table s)" and "square n (total_games_table s)"
    and "square n (winrates_table s)"
    and "\<forall>i<n. \<forall>j<n. cell (total_games_table s) i j \<noteq> - 2"
  shows "\<exists>s'. calculate_winrates s = Inr s' \<and> square n (winrates_table s') \<and>
           wins_table s' = wins_table s \<and> total_games_table s' = total_games_table s \<and>
           (\<forall>i<n. \<forall>j<n.
              cell (winrates_table s') i j =
                (cell (wins_table s) i j + 1) / (cell (total_games_table s) i j + 2 * 1) \<and>
              (cell (total_games_table s) i j = 0 \<and> cell (wins_table s) i j = 0 \<longrightarrow>
                 cell (winrates_table s') i j = 1 / 2))"
proof -
  from calculate_winrates_square[OF assms(1,2,3)] obtain r where
    r: "calculate_winrates s = Inr (s\<lparr>winrates_table := Some r\<rparr>)" "square n (Some r)"
       "\<forall>i<n. \<forall>j<n. cell (Some r) i j =
             winrate_function (cell (wins_table s) i j) (cell (total_games_table s) i j) 1"
    by blast
  have "\<forall>i<n. \<forall>j<n.
              cell (Some r) i j =
                (cell (wins_table s) i j + 1) / (cell (total_games_table s) i j + 2 * 1) \<and>
              (cell (total_games_table s) i j = 0 \<and> cell (wins_table s) i j = 0 \<longrightarrow>
                 cell (Some r) i j = 1 / 2)"
    using r(3) by (simp add: winrate_function_def)
  then show ?thesis using r(1,2) by simp
qed

theorem calculate_winrates_formula_witness:
  "cell (winrates_table (state_after (calculate_winrates knight_played))) 0 2 = 2 / 3 \<and>
   cell (winrates_table (state_after (calculate_winrates knight_played))) 1 0 = 1 / 2"
proof -
  have sq: "square 3 (wins_table knight_played)" "square 3 (total_games_table knight_played)"
    "square 3 (winrates_table knight_played)"
    by (simp_all add: knight_played_def three_cards_def init_tables_def square_def np_zeros_def)
  have nz: "\<forall>i<3. \<forall>j<3. cell (total_games_table knight_played) i j \<noteq> - 2"
    by (simp add: knight_played_def cell_def All_less_Suc numeral_3_eq_3)
  from calculate_winrates_formula[OF sq nz] obtain s' where
    s': "calculate_winrates knight_played = Inr s'"
    and f: "\<forall>i<3. \<forall>j<3. cell (winrates_table s') i j =
                (cell (wins_table knight_played) i j + 1) /
                (cell (total_games_table knight_played) i j + 2 * 1)"
    by blast
  have "cell (winrates_table s') 0 2 = 2 / 3" "cell (winrates_table s') 1 0 = 1 / 2"
    using f by (simp_all add: knight_played_def cell_def)
  then show ?thesis by (simp add: s' state_after_def)
qed

section \<open>Invariants of the accumulator\<close>

lemma counts_inv_iff:
  "counts_inv n s \<longleftrightarrow>
     (\<forall>i<n. \<forall>j<n.
        cell (total_games_table s) i j = cell (total_games_table s) j i \<and>
        0 \<le> cell (wins_table s) i j \<and>
        cell (wins_table s) i j \<le> cell (total_games_table s) i j)"
  by (auto simp add: counts_inv_def list_all_iff)

lemma square_np_zeros: "square n (Some (np_zeros n))"
  by (simp add: square_def np_zeros_def list_all_iff)

lemma cell_np_zeros: "i < n \<Longrightarrow> j < n \<Longrightarrow> cell (Some (np_zeros n)) i j = 0"
  by (simp add: cell_def np_zeros_def)

lemma list_all_update:
  "list_all P d \<Longrightarrow> P (k, v) \<Longrightarrow> list_all P (AList.update k v d)"
  by (induction d) auto

lemma list_all_foldl_update:
  "list_all P d \<Longrightarrow> \<forall>(index, name)\<in>set ps. P (name, int index) \<Longrightarrow>
   list_all P (foldl (\<lambda>d (index, name). AList.update name (int index) d) d ps)"
  by (induction ps arbitrary: d) (auto intro: list_all_update)

lemma init_tables_well_formed: "well_formed (length names) (init_tables names)"
proof -
  have "\<forall>(index, name)\<in>set (enumerate 0 names).
          (\<lambda>(name, i). 0 \<le> i \<and> i < int (length names)) (name, int index)"
    by (auto simp: in_set_enumerate_eq)
  then have "list_all (\<lambda>(name, i). 0 \<le> i \<and> i < int (length names))
          (foldl (\<lambda>d (index, name). AList.update name (int index) d) [] (enumerate 0 names))"
    by (intro list_all_foldl_update) simp_all
  then show ?thesis
    by (simp add: well_formed_def init_tables_def square_np_zeros)
qed

lemma init_tables_counts_inv: "counts_inv (length names) (init_tables names)"
  by (simp add: counts_inv_iff init_tables_def cell_np_zeros)

lemma process_game_well_formed:
  assumes wf: "well_formed n s"
  shows "well_formed n (state_after (process_game s g))"
proof (cases "state_after (process_game s g) = s")
  case True
  then show ?thesis using wf by simp
next
  case False
  with process_game_unchanged_or_counted[of s g] obtain ti oi where
    nd: "winner g \<noteq> DRAW"
    and ti: "indices_for_deck s (team_deck g) = Inr ti" "ti \<noteq> []"
    and oi: "indices_for_deck s (opponent_deck g) = Inr oi" "oi \<noteq> []"
    by blast
  from process_game_effect[OF wf nd ti(1) oi(1) ti(2) oi(2)] obtain w' t' where
    res: "process_game s g =
            Inr (s\<lparr>wins_table := Some w', total_games_table := Some t',
                   gamesProcessed := gamesProcessed s + 1\<rparr>)"
    and sq: "square n (Some w')" "square n (Some t')"
    by blast
  show ?thesis using wf sq by (simp add: res state_after_def well_formed_def)
qed

lemma process_game_preserves:
  assumes wf: "well_formed n s" and inv: "counts_inv n s"
  shows "well_formed n (state_after (process_game s g)) \<and>
         counts_inv n (state_after (process_game s g)) \<and>
         winrates_table (state_after (process_game s g)) = winrates_table s"
proof (cases "state_after (process_game s g) = s")
  case True
  then show ?thesis using wf inv by simp
next
  case False
  with process_game_unchanged_or_counted[of s g] obtain ti oi where
    nd: "winner g \<noteq> DRAW"
    and ti: "indices_for_deck s (team_deck g) = Inr ti" "ti \<noteq> []"
    and oi: "indices_for_deck s (opponent_deck g) = Inr oi" "oi \<noteq> []"
    by blast
  from process_game_effect[OF wf nd ti(1) oi(1) ti(2) oi(2)] obtain w' t' where
    res: "process_game s g =
            Inr (s\<lparr>wins_table := Some w', total_games_table := Some t',
                   gamesProcessed := gamesProcessed s + 1\<rparr>)"
    and sq: "square n (Some w')" "square n (Some t')"
    and cells: "\<forall>i<n. \<forall>j<n.
             cell (Some w') i j = cell (wins_table s) i j +
               (if (if winner g = TEAM then int i \<in> set ti \<and> int j \<in> set oi
                    else int i \<in> set oi \<and> int j \<in> set ti) then 1 else 0) \<and>
             cell (Some t') i j = cell (total_games_table s) i j +
               (if int i \<in> set ti \<and> int j \<in> set oi then 1 else 0) +
               (if int i \<in> set oi \<and> int j \<in> set ti then 1 else 0)"
    by blast
  let ?s' = "s\<lparr>wins_table := Some w', total_games_table := Some t',
                   gamesProcessed := gamesProcessed s + 1\<rparr>"
  have after: "state_after (process_game s g) = ?s'"
    by (simp add: res state_after_def)
  have wf': "well_formed n ?s'"
    using wf sq by (simp add: well_formed_def)
  have inv': "counts_inv n ?s'"
    unfolding counts_inv_iff
  proof (intro allI impI)
    fix i j assume ij: "i < n" "j < n"
    from inv ij have old: "cell (total_games_table s) i j = cell (total_games_table s) j i"
      "0 \<le> cell (wins_table s) i j" "cell (wins_table s) i j \<le> cell (total_games_table s) i j"
      by (simp_all add: counts_inv_iff)
    from cells ij have c1: "cell (Some w') i j = cell (wins_table s) i j +
               (if (if winner g = TEAM then int i \<in> set ti \<and> int j \<in> set oi
                    else int i \<in> set oi \<and> int j \<in> set ti) then 1 else 0)"
      and c2: "cell (Some t') i j = cell (total_games_table s) i j +
               (if int i \<in> set ti \<and> int j \<in> set oi then 1 else 0) +
               (if int i \<in> set oi \<and> int j \<in> set ti then 1 else 0)"
      and c3: "cell (Some t') j i = cell (total_games_table s) j i +
               (if int j \<in> set ti \<and> int i \<in> set oi then 1 else 0) +
               (if int j \<in> set oi \<and> int i \<in> set ti then 1 else 0)"
      by simp_all
    show "cell (total_games_table ?s') i j = cell (total_games_table ?s') j i \<and>
          0 \<le> cell (wins_table ?s') i j \<and>
          cell (wins_table ?s') i j \<le> cell (total_games_table ?s') i j"
      using old c1 c2 c3 by (auto split: if_splits)
  qed
  show ?thesis using wf' inv' by (simp add: after)
qed

lemma process_games_preserves:
  "well_formed n s \<Longrightarrow> counts_inv n s \<Longrightarrow>
   well_formed n (state_after (process_games s gs)) \<and>
   counts_inv n (state_after (process_games s gs)) \<and>
   winrates_table (state_after (process_games s gs)) = winrates_table s"
proof (induction gs arbitrary: s)
  case Nil
  then show ?case by (simp add: state_after_def)
next
  case (Cons g gs)
  note step = process_game_preserves[OF Cons.prems, of g]
  show ?case
  proof (cases "process_game s g")
    case (Inl x)
    then have "state_after (process_games s (g # gs)) = state_after (process_game s g)"
      by (simp add: state_after_def)
    then show ?thesis using step by simp
  next
    case (Inr s1)
    then have s1: "state_after (process_game s g) = s1" by (simp add: state_after_def)
    have "process_games s (g # gs) = process_games s1 gs" by (simp add: Inr)
    moreover have "well_formed n (state_after (process_games s1 gs)) \<and>
       counts_inv n (state_after (process_games s1 gs)) \<and>
       winrates_table (state_after (process_games s1 gs)) = winrates_table s1"
      using step s1 by (intro Cons.IH) simp_all
    ultimately show ?thesis using step s1 by simp
  qed
qed

lemma process_game_returns:
  assumes wf: "well_formed n s" and n: "n \<le> 2147483648"
  shows "\<exists>s'. process_game s g = Inr s'"
proof -
  have fits: "\<exists>idxs. indices_for_deck s d = Inr idxs" for d
  proof -
    have "list_all fits_int32 (List.map_filter (map_of (card_name_to_index s))
             (cards d @ supportCards d))"
      unfolding list_all_iff set_map_filter_map_of
    proof
      fix i assume "i \<in> {y. \<exists>x\<in>set (cards d @ supportCards d).
                          map_of (card_name_to_index s) x = Some y}"
      then obtain name where "map_of (card_name_to_index s) name = Some i" by blast
      then have "(name, i) \<in> set (card_name_to_index s)" by (rule map_of_SomeD)
      then have "0 \<le> i \<and> i < int n" using wf by (auto simp: well_formed_def list_all_iff)
      then show "fits_int32 i" using n by (simp add: fits_int32_def)
    qed
    then show ?thesis by (simp add: indices_for_deck_def Let_def)
  qed
  from fits obtain ti oi where ti: "indices_for_deck s (team_deck g) = Inr ti"
    and oi: "indices_for_deck s (opponent_deck g) = Inr oi" by blast
  show ?thesis
  proof (cases "winner g \<noteq> DRAW \<and> ti \<noteq> [] \<and> oi \<noteq> []")
    case True
    with process_game_effect[OF wf _ ti oi] show ?thesis by blast
  next
    case False
    then show ?thesis
      using ti oi by (auto simp: process_game_def split: option.splits)
  qed
qed

lemma process_games_returns:
  "well_formed n s \<Longrightarrow> n \<le> 2147483648 \<Longrightarrow> \<exists>s'. process_games s gs = Inr s'"
proof (induction gs arbitrary: s)
  case Nil
  then show ?case by simp
next
  case (Cons g gs)
  from process_game_returns[OF Cons.prems] obtain s1 where s1: "process_game s g = Inr s1"
    by blast
  have "state_after (process_game s g) = s1" by (simp add: s1 state_after_def)
  then have "well_formed n s1"
    using process_game_well_formed[OF Cons.prems(1), of g] by simp
  from Cons.IH[OF this Cons.prems(2)] show ?case by (simp add: s1)
qed

section \<open>Symmetry of the total-games table (claim C4)\<close>

text \<open>
  Claim C4. After every sequence of \<open>process_game\<close> calls on a freshly constructed
  instance (all tables zero), the total-games table is still \<open>n \<times> n\<close> and symmetric:
  \<open>total[i][j] = total[j][i]\<close> for all indices. This holds for the instance the sequence
  leaves behind however it ends, and with at most \<open>2^31\<close> cards in the catalogue no call
  of the sequence raises.
\<close>

theorem total_games_symmetric:
  "square (length names)
     (total_games_table (state_after (process_games (init_tables names) games))) \<and>
   (\<forall>i<length names. \<forall>j<length names.
      cell (total_games_table (state_after (process_games (init_tables names) games))) i j =
      cell (total_games_table (state_after (process_games (init_tables names) games))) j i) \<and>
   (length names \<le> 2147483648 \<longrightarrow>
      (\<exists>s'. process_games (init_tables names) games = Inr s'))"
proof -
  note p = process_games_preserves[OF init_tables_well_formed init_tables_counts_inv,
      of names games]
  have "square (length names)
     (total_games_table (state_after (process_games (init_tables names) games)))"
    using p by (simp add: well_formed_def)
  moreover have "\<forall>i<length names. \<forall>j<length names.
      cell (total_games_table (state_after (process_games (init_tables names) games))) i j =
      cell (total_games_table (state_after (process_games (init_tables names) games))) j i"
    using p by (simp add: counts_inv_iff)
  moreover have "length names \<le> 2147483648 \<longrightarrow>
      (\<exists>s'. process_games (init_tables names) games = Inr s')"
    using process_games_returns[OF init_tables_well_formed] by blast
  ultimately show ?thesis by blast
qed

theorem total_games_symmetric_witness:
  "cell (total_games_table (state_after (process_games three_cards [knight_game, draw_game]))) 0 2 =
   cell (total_games_table (state_after (process_games three_cards [knight_game, draw_game]))) 2 0 \<and>
   cell (total_games_table (state_after (process_games three_cards [knight_game, draw_game]))) 0 2 = 1 \<and>
   process_games three_cards [knight_game, draw_game] = Inr knight_played"
proof -
  note inst = total_games_symmetric[of "[''knight'', ''archer'', ''wizard'']"
      "[knight_game, draw_game]"]
  have len: "length [''knight'', ''archer'', ''wizard''] \<le> (2147483648::nat)" by simp
  from inst len obtain s' where s': "process_games three_cards [knight_game, draw_game] = Inr s'"
    unfolding three_cards_def by blast
  then have run: "process_games three_cards [knight_game, draw_game] = Inr knight_played"
    by (auto simp add: eval_defs knight_game_def draw_game_def knight_played_def numeral_3_eq_3)
  from inst
  have "cell (total_games_table (state_after (process_games three_cards [knight_game, draw_game]))) 0 2 =
   cell (total_games_table (state_after (process_games three_cards [knight_game, draw_game]))) 2 0"
    by (simp add: three_cards_def)
  moreover have "cell (total_games_table (state_after (process_games three_cards [knight_game, draw_game]))) 0 2 = 1"
    unfolding run state_after_def by (simp add: knight_played_def cell_def)
  ultimately show ?thesis using run by blast
qed

section \<open>Range of the winrates (claim C8)\<close>



section \<open>The reading loop\<close>








declare load_row.simps [simp del]










lemma ragged_iff:
  "ragged rows \<longleftrightarrow> (\<exists>r1\<in>set rows. \<exists>r2\<in>set rows. length r1 \<noteq> length r2)"
proof (cases rows)
  case Nil
  then show ?thesis by (simp add: ragged_def)
next
  case (Cons h rest)
  have h: "h \<in> set rows" "hd rows = h" using Cons by simp_all
  have "(\<exists>r\<in>set rows. length r \<noteq> length h) \<longleftrightarrow>
        (\<exists>r1\<in>set rows. \<exists>r2\<in>set rows. length r1 \<noteq> length r2)"
  proof
    assume "\<exists>r\<in>set rows. length r \<noteq> length h"
    then show "\<exists>r1\<in>set rows. \<exists>r2\<in>set rows. length r1 \<noteq> length r2"
      using h(1) by blast
  next
    assume "\<exists>r1\<in>set rows. \<exists>r2\<in>set rows. length r1 \<noteq> length r2"
    then obtain r1 r2 where r: "r1 \<in> set rows" "r2 \<in> set rows" "length r1 \<noteq> length r2"
      by blast
    show "\<exists>r\<in>set rows. length r \<noteq> length h"
    proof (cases "length r1 = length h")
      case True
      then have "length r2 \<noteq> length h" using r(3) by simp
      then show ?thesis using r(2) by blast
    next
      case False
      then show ?thesis using r(1) by blast
    qed
  qed
  then show ?thesis by (simp add: ragged_def list_all_iff h(2))
qed






section \<open>When loading fails (claim C6)\<close>






section \<open>The mappings after a failed load (claim C9)\<close>




section \<open>The counter across a load (claim C10)\<close>

lemma load_row_gamesProcessed:
  "load_row ip fp row (d, W, T, R, s) = Inl (e, s') \<Longrightarrow> gamesProcessed s' = gamesProcessed s"
  "load_row ip fp row (d, W, T, R, s) = Inr (d', W', T', R', s') \<Longrightarrow>
     gamesProcessed s' = gamesProcessed s"
  by (auto simp: load_row.simps split: if_splits list.splits option.splits)

lemma load_rows_gamesProcessed:
  "(load_rows ip fp rows (d, W, T, R, s) = Inl (e, s') \<longrightarrow> gamesProcessed s' = gamesProcessed s) \<and>
   (load_rows ip fp rows (d, W, T, R, s) = Inr (d', W', T', R', s') \<longrightarrow>
      gamesProcessed s' = gamesProcessed s)"
proof (induction rows arbitrary: d W T R s)
  case Nil
  then show ?case by simp
next
  case (Cons row rows)
  show ?case
  proof (cases "load_row ip fp row (d, W, T, R, s)")
    case (Inl x)
    then show ?thesis using load_row_gamesProcessed(1)[of ip fp row d W T R s] by auto
  next
    case (Inr st)
    obtain d1 W1 T1 R1 s1 where st: "st = (d1, W1, T1, R1, s1)" by (cases st) auto
    have "gamesProcessed s1 = gamesProcessed s"
      using load_row_gamesProcessed(2)[of ip fp row d W T R s d1 W1 T1 R1 s1] Inr st by simp
    then show ?thesis using Cons.IH[of d1 W1 T1 R1 s1] Inr st by simp
  qed
qed

text \<open>
  Claim C10. \<open>load_from_csv\<close> leaves \<open>gamesProcessed\<close> as it was, whatever the file
  holds and however the call ends: the counter is neither written by \<open>save_to_csv\<close>
  nor read back, so after a load into a fresh instance it is 0.
\<close>

theorem load_from_csv_keeps_counter:
  "gamesProcessed (state_after (load_from_csv py_int py_float file s)) = gamesProcessed s \<and>
   gamesProcessed (state_after (load_from_csv py_int py_float file (init_tables names))) = 0"
proof -
  have keep: "gamesProcessed (state_after (load_from_csv py_int py_float file s)) = gamesProcessed s"
    for s
  proof (cases "file")
    case None
    then show ?thesis by (simp add: load_from_csv_def state_after_def)
  next
    case (Some rows)
    let ?s0 = "s\<lparr>card_name_to_index := [], index_to_card_name := []\<rparr>"
    show ?thesis
    proof (cases "load_rows py_int py_float rows (0, [], [], [], ?s0)")
      case (Inl x)
      obtain e s' where x: "x = (e, s')" by (cases x)
      have "gamesProcessed s' = gamesProcessed ?s0"
        using load_rows_gamesProcessed[of py_int py_float rows 0 "[]" "[]" "[]" ?s0 e s'] Inl x
        by simp
      then show ?thesis by (simp add: load_from_csv_def Some Inl x state_after_def)
    next
      case (Inr st)
      obtain d1 W1 T1 R1 s1 where st: "st = (d1, W1, T1, R1, s1)" by (cases st) auto
      have "gamesProcessed s1 = gamesProcessed ?s0"
        using load_rows_gamesProcessed[of py_int py_float rows 0 "[]" "[]" "[]" ?s0 _ s1 d1 W1 T1 R1]
          Inr st by simp
      then show ?thesis
        by (simp add: load_from_csv_def Some Inr st state_after_def split: sum.splits)
    qed
  qed
  show ?thesis using keep[of s] keep[of "init_tables names"] by (simp add: init_tables_def)
qed

section \<open>Saving and loading again (claim C1)\<close>



















end
